theory Spec2Isabelle
  imports Complex_Main "HOL-Library.Log_Nat" "HOL-Library.Char_ord" "HOL-Library.List_Lexorder"
begin

section \<open>Python floats: IEEE 754 binary64 with round-to-nearest-even\<close>

text \<open>
  The energy figures of \<^verbatim>\<open>lightCal.py\<close> are Python floats. A finite float is
  modelled by the rational number it denotes; every arithmetic operation computes the
  exact rational result and rounds it to the nearest number with a 53-bit significand,
  ties to the even significand. The exponent is unbounded in the model, so it agrees
  with the hardware wherever no intermediate result leaves the normal range of binary64
  (magnitude zero or between \<open>2 powi -1022\<close> and \<open>2 powi 1024\<close>); the sign of zero is
  not represented. The theorems below that depend on the arithmetic bound their inputs
  inside that range.
\<close>

type_synonym double = rat

text \<open>\<open>expo x\<close> is the binary exponent of a positive \<open>x\<close>: \<open>2 powi expo x \<le> x < 2 powi (expo x + 1)\<close>.\<close>

definition expo :: "rat \<Rightarrow> int" where
  "expo x = (if 1 \<le> x then bitlen \<lfloor>x\<rfloor> - 1 else - bitlen (\<lceil>1 / x\<rceil> - 1))"

definition round_half_even :: "rat \<Rightarrow> int" where
  "round_half_even x =
     (let f = \<lfloor>x\<rfloor>; r = x - of_int f
      in if r < 1 / 2 then f else if 1 / 2 < r then f + 1 else if even f then f else f + 1)"

definition rnd :: "rat \<Rightarrow> double" where
  "rnd x = (if x = 0 then 0
            else let e = expo \<bar>x\<bar> - 52
                 in sgn x * of_int (round_half_even (\<bar>x\<bar> / 2 powi e)) * 2 powi e)"

definition fadd :: "double \<Rightarrow> double \<Rightarrow> double" where
  "fadd x y = rnd (x + y)"

definition fmul :: "double \<Rightarrow> double \<Rightarrow> double" where
  "fmul x y = rnd (x * y)"

text \<open>Conversion of a Python int to float, as the mixed \<open>int * float\<close> does first.\<close>

definition float_of_int :: "int \<Rightarrow> double" where
  "float_of_int n = rnd (of_int n)"

text \<open>
  \<^verbatim>\<open>round(x, 2)\<close> on a float: the exact value of \<open>x\<close> is rounded to two decimals, ties to
  even, and the decimal result is converted back to the nearest float.
\<close>

definition py_round2 :: "double \<Rightarrow> double" where
  "py_round2 x = rnd (of_int (round_half_even (x * 100)) / 100)"

section \<open>Energy model\<close>

text \<open>
  \<^verbatim>\<open>calculate_energy_consumption\<close>: a Python dict is an association list in insertion
  order (its keys are distinct); the loop over \<^verbatim>\<open>appliances.items()\<close> is a fold
  that starts at 0 and skips the keys that are not in the rate table.
\<close>

definition energy_rates :: "(string \<times> double) list" where
  "energy_rates =
     [(''lights'', rnd (2 / 10)),
      (''fans'', rnd (2 / 10)),
      (''tvs'', rnd (3 / 10)),
      (''ac'', rnd 3),
      (''fridge'', rnd (31 / 10)),
      (''washing_machine'', rnd (28 / 10))]"

definition add_appliance :: "string \<times> int \<Rightarrow> double \<Rightarrow> double" where
  "add_appliance = (\<lambda>(appliance, count) total.
     case map_of energy_rates appliance of
       Some rate \<Rightarrow> fadd total (fmul (float_of_int count) rate)
     | None \<Rightarrow> total)"

definition calculate_energy_consumption :: "(string \<times> int) list \<Rightarrow> double" where
  "calculate_energy_consumption appliances = fold add_appliance appliances 0"

text \<open>
  The body of \<^verbatim>\<open>calculate_energy_consumption\<close> has no \<^verbatim>\<open>raise\<close> and no check
  of its input: seen as a computation that may fail, it always returns.
\<close>

datatype error = InvalidInput | DatabaseError | OverflowError


text \<open>
  The counts for which the float model above is the hardware's arithmetic: far below the
  magnitude where the conversion of an int to a float overflows.
\<close>

definition counts_in_range :: "(string \<times> int) list \<Rightarrow> bool" where
  "counts_in_range appliances = list_all (\<lambda>(k, c). \<bar>c\<bar> < 2 ^ 1000) appliances"

section \<open>Clock readings\<close>

text \<open>
  A naive \<^verbatim>\<open>datetime\<close> is its tuple of fields. \<^verbatim>\<open>datetime.now()\<close> is an input of
  the model.
\<close>

record datetime =
  year :: int
  month :: int
  day :: int
  hour :: int
  minute :: int
  second :: int
  microsecond :: int

definition is_leap :: "int \<Rightarrow> bool" where
  "is_leap y = (y mod 4 = 0 \<and> (y mod 100 \<noteq> 0 \<or> y mod 400 = 0))"



definition days_before_year :: "int \<Rightarrow> int" where
  "days_before_year y = (y - 1) * 365 + (y - 1) div 4 - (y - 1) div 100 + (y - 1) div 400"

definition days_before_month :: "int \<Rightarrow> int \<Rightarrow> int" where
  "days_before_month y m =
     [0, 31, 59, 90, 120, 151, 181, 212, 243, 273, 304, 334] ! nat (m - 1)
     + (if 2 < m \<and> is_leap y then 1 else 0)"

text \<open>\<^verbatim>\<open>toordinal()\<close>: day 1 is 0001-01-01 of the proleptic Gregorian calendar.\<close>

definition toordinal :: "datetime \<Rightarrow> int" where
  "toordinal t = days_before_year (year t) + days_before_month (year t) (month t) + day t"

definition to_micros :: "datetime \<Rightarrow> int" where
  "to_micros t =
     toordinal t * 86400000000
     + ((hour t * 60 + minute t) * 60 + second t) * 1000000 + microsecond t"

text \<open>
  The driver stores a datetime as BSON UTC milliseconds since 1970-01-01 (ordinal
  719163), dropping the microseconds below a millisecond.
\<close>

definition micros_to_millis :: "int \<Rightarrow> int" where
  "micros_to_millis us = (us - 719163 * 86400000000) div 1000"

definition to_millis :: "datetime \<Rightarrow> int" where
  "to_millis t = micros_to_millis (to_micros t)"

definition digit :: "int \<Rightarrow> char" where
  "digit n = ''0123456789'' ! nat n"

definition dec2 :: "int \<Rightarrow> string" where
  "dec2 n = [digit (n div 10 mod 10), digit (n mod 10)]"

definition dec4 :: "int \<Rightarrow> string" where
  "dec4 n = dec2 (n div 100) @ dec2 (n mod 100)"

text \<open>\<^verbatim>\<open>strftime("%Y-%m-%d")\<close>, for the four-digit years that a clock reading has.\<close>

definition strftime_date :: "datetime \<Rightarrow> string" where
  "strftime_date t = dec4 (year t) @ ''-'' @ dec2 (month t) @ ''-'' @ dec2 (day t)"

text \<open>\<^verbatim>\<open>strftime("%A")\<close>: \<^verbatim>\<open>weekday()\<close> is \<open>(toordinal + 6) mod 7\<close>, Monday first.\<close>

definition strftime_weekday :: "datetime \<Rightarrow> string" where
  "strftime_weekday t =
     [''Monday'', ''Tuesday'', ''Wednesday'', ''Thursday'', ''Friday'', ''Saturday'', ''Sunday'']
       ! nat ((toordinal t + 6) mod 7)"

section \<open>The document store\<close>

text \<open>
  A stored value is a string, a number, a BSON date (milliseconds), the nested
  \<^verbatim>\<open>appliances\<close> document or an object id. A document maps field names to values; the
  collection keeps its documents in insertion order. \<open>reachable\<close> says whether the
  server answers: when it does not, every driver call raises.
\<close>

datatype bson =
    VStr string
  | VNum double
  | VDate int
  | VDoc "(string \<times> int) list"
  | VId nat

type_synonym document = "string \<rightharpoonup> bson"

record server =
  docs :: "document list"
  next_id :: nat
  reachable :: bool

definition matches :: "(string \<times> bson) list \<Rightarrow> document \<Rightarrow> bool" where
  "matches flt d = list_all (\<lambda>(k, v). d k = Some v) flt"

text \<open>BSON integers have at most 8 bytes: the driver raises on a larger one.\<close>

fun encodable :: "bson \<Rightarrow> bool" where
  "encodable (VDoc kvs) = list_all (\<lambda>(k, c). - (2 ^ 63) \<le> c \<and> c < 2 ^ 63) kvs"
| "encodable _ = True"

definition find_one :: "server \<Rightarrow> (string \<times> bson) list \<Rightarrow> string + document option" where
  "find_one s flt =
     (if reachable s then Inr (List.find (matches flt) (docs s))
      else Inl ''ServerSelectionTimeoutError'')"

text \<open>\<^verbatim>\<open>update_one(filter, {"$set": data})\<close>: the first match gets the fields of \<open>data\<close>.\<close>

fun set_first :: "(string \<times> bson) list \<Rightarrow> (string \<times> bson) list \<Rightarrow> document list \<Rightarrow> document list" where
  "set_first flt data [] = []"
| "set_first flt data (d # ds) =
     (if matches flt d then (d ++ map_of data) # ds else d # set_first flt data ds)"

definition update_one :: "server \<Rightarrow> (string \<times> bson) list \<Rightarrow> (string \<times> bson) list \<Rightarrow> string + server" where
  "update_one s flt data =
     (if \<not> reachable s then Inl ''ServerSelectionTimeoutError''
      else if \<not> list_all (\<lambda>(k, v). encodable v) data then Inl ''OverflowError''
      else Inr (s\<lparr>docs := set_first flt data (docs s)\<rparr>))"

text \<open>\<^verbatim>\<open>insert_one(data)\<close>: the driver adds a fresh \<^verbatim>\<open>_id\<close>.\<close>

definition insert_one :: "server \<Rightarrow> (string \<times> bson) list \<Rightarrow> string + server" where
  "insert_one s data =
     (if \<not> reachable s then Inl ''ServerSelectionTimeoutError''
      else if \<not> list_all (\<lambda>(k, v). encodable v) data then Inl ''OverflowError''
      else Inr (s\<lparr>docs := docs s @ [(map_of data)(''_id'' \<mapsto> VId (next_id s))],
                  next_id := Suc (next_id s)\<rparr>))"

definition timestamp_of :: "document \<Rightarrow> int" where
  "timestamp_of d = (case d ''timestamp'' of Some (VDate t) \<Rightarrow> t | _ \<Rightarrow> 0)"

definition gte_date :: "document \<Rightarrow> string \<Rightarrow> int \<Rightarrow> bool" where
  "gte_date d k start = (case d k of Some (VDate t) \<Rightarrow> start \<le> t | _ \<Rightarrow> False)"

text \<open>
  \<^verbatim>\<open>find({"username": u, "timestamp": {"$gte": start}}).sort("timestamp", 1)\<close>: a date
  operand of \<^verbatim>\<open>$gte\<close> selects only documents whose field is a date.
\<close>

definition find_since_sorted :: "server \<Rightarrow> string \<Rightarrow> int \<Rightarrow> string + document list" where
  "find_since_sorted s username start =
     (if reachable s
      then Inr (sort_key timestamp_of
             (filter (\<lambda>d. matches [(''username'', VStr username)] d \<and> gte_date d ''timestamp'' start)
                (docs s)))
      else Inl ''ServerSelectionTimeoutError'')"

section \<open>The ledger operations of lightCal.py\<close>

text \<open>
  The module-level \<^verbatim>\<open>db\<close> is \<open>None\<close> when the connection could not be set up. Each
  operation takes it and the clock reading, and returns its value, the store and the
  messages it shows through \<^verbatim>\<open>st.error\<close>.
\<close>

definition consumption_data :: "datetime \<Rightarrow> string \<Rightarrow> (string \<times> int) list \<Rightarrow> double \<Rightarrow> double \<Rightarrow> (string \<times> bson) list" where
  "consumption_data today username appliances total_energy cost =
     [(''username'', VStr username),
      (''date'', VStr (strftime_date today)),
      (''day_of_week'', VStr (strftime_weekday today)),
      (''timestamp'', VDate (to_millis today)),
      (''appliances'', VDoc appliances),
      (''total_energy_kwh'', VNum (py_round2 total_energy)),
      (''estimated_cost'', VNum (py_round2 cost))]"

definition save_consumption_data ::
  "server option \<Rightarrow> datetime \<Rightarrow> string \<Rightarrow> (string \<times> int) list \<Rightarrow> double \<Rightarrow> double
     \<Rightarrow> bool \<times> server option \<times> string list" where
  "save_consumption_data db today username appliances total_energy cost =
     (case db of
        None \<Rightarrow> (False, None, [])
      | Some s \<Rightarrow>
          (let data = consumption_data today username appliances total_energy cost;
               attempt =
                 (case find_one s [(''username'', VStr username), (''date'', VStr (strftime_date today))] of
                    Inl e \<Rightarrow> Inl e
                  | Inr (Some existing) \<Rightarrow>
                      (case existing ''_id'' of
                         None \<Rightarrow> Inl ''KeyError''
                       | Some i \<Rightarrow> update_one s [(''_id'', i)] data)
                  | Inr None \<Rightarrow> insert_one s data)
           in case attempt of
                Inr s' \<Rightarrow> (True, Some s', [])
              | Inl e \<Rightarrow> (False, Some s, [''Error saving consumption data: '' @ e])))"

text \<open>
  \<^verbatim>\<open>datetime.now() - timedelta(days=days)\<close> is computed before the \<^verbatim>\<open>try\<close>: the
  timedelta constructor raises OverflowError beyond 999999999 days, and so does the
  subtraction when the result leaves the years 1 to 9999 (ordinals 1 to 3652059). The
  start of the window is kept as its instant in microseconds.
\<close>

definition window_start :: "datetime \<Rightarrow> int \<Rightarrow> error + int" where
  "window_start now days =
     (if \<bar>days\<bar> > 999999999 then Inl OverflowError
      else let us = to_micros now - days * 86400000000
           in if 0 < us div 86400000000 \<and> us div 86400000000 \<le> 3652059
              then Inr us else Inl OverflowError)"

definition get_user_consumption_data ::
  "server option \<Rightarrow> datetime \<Rightarrow> string \<Rightarrow> int \<Rightarrow> error + document list \<times> string list" where
  "get_user_consumption_data db now username days =
     (case db of
        None \<Rightarrow> Inr ([], [])
      | Some s \<Rightarrow>
          (case window_start now days of
             Inl e \<Rightarrow> Inl e
           | Inr start_date \<Rightarrow>
               (case find_since_sorted s username (micros_to_millis start_date) of
                  Inr data \<Rightarrow> Inr (data, [])
                | Inl e \<Rightarrow> Inr ([], [''Error retrieving consumption data: '' @ e]))))"

text \<open>
  The submit path of \<^verbatim>\<open>show_energy_input_form\<close>: the six widget values make the
  \<^verbatim>\<open>appliances\<close> dict, the cost is the energy times 8, and the entry is saved only
  when the energy is positive.
\<close>

definition form_appliances :: "int \<Rightarrow> int \<Rightarrow> int \<Rightarrow> int \<Rightarrow> int \<Rightarrow> int \<Rightarrow> (string \<times> int) list" where
  "form_appliances lights fans tvs ac_count fridge_count wm_count =
     [(''lights'', lights), (''fans'', fans), (''tvs'', tvs), (''ac'', ac_count),
      (''fridge'', fridge_count), (''washing_machine'', wm_count)]"

definition rate_per_unit :: int where
  "rate_per_unit = 8"

definition submit_energy_form ::
  "server option \<Rightarrow> datetime \<Rightarrow> string \<Rightarrow> (string \<times> int) list \<Rightarrow> server option" where
  "submit_energy_form db today username appliances =
     (let total_energy = calculate_energy_consumption appliances;
          total_cost = fmul total_energy (float_of_int rate_per_unit)
      in if 0 < total_energy
         then fst (snd (save_consumption_data db today username appliances total_energy total_cost))
         else db)"

section \<open>Notions used to state the properties\<close>

text \<open>The records of a user for a day: what the lookup by \<^verbatim>\<open>username\<close> and \<^verbatim>\<open>date\<close> matches.\<close>

definition records_for :: "server \<Rightarrow> string \<Rightarrow> string \<Rightarrow> document list" where
  "records_for s username date =
     filter (matches [(''username'', VStr username), (''date'', VStr date)]) (docs s)"

text \<open>
  The guarantee of the store on \<^verbatim>\<open>_id\<close>: every document has an object id, the ids are
  distinct, and the next fresh id is above all of them.
\<close>

definition has_id_below :: "nat \<Rightarrow> document \<Rightarrow> bool" where
  "has_id_below n d = (case d ''_id'' of Some (VId i) \<Rightarrow> i < n | _ \<Rightarrow> False)"

definition wf_server :: "server \<Rightarrow> bool" where
  "wf_server s =
     (list_all (has_id_below (next_id s)) (docs s) \<and>
      distinct (map (\<lambda>d. d ''_id'') (docs s)))"


text \<open>
  A history of submissions: each is one call of \<^verbatim>\<open>save_consumption_data\<close>, with the
  clock reading of that call.
\<close>

record submission =
  sub_today :: datetime
  sub_username :: string
  sub_appliances :: "(string \<times> int) list"
  sub_total_energy :: double
  sub_cost :: double

fun run_saves :: "server option \<Rightarrow> submission list \<Rightarrow> server option" where
  "run_saves db [] = db"
| "run_saves db (x # xs) =
     run_saves
       (fst (snd (save_consumption_data db (sub_today x) (sub_username x) (sub_appliances x)
                    (sub_total_energy x) (sub_cost x))))
       xs"

text \<open>
  The values that the six \<^verbatim>\<open>st.number_input\<close> widgets of the form can return: their
  \<^verbatim>\<open>min_value\<close> is 0 and their \<^verbatim>\<open>max_value\<close> 50, 20, 10, 10, 5 and 5.
\<close>

definition form_ranges :: "int \<Rightarrow> int \<Rightarrow> int \<Rightarrow> int \<Rightarrow> int \<Rightarrow> int \<Rightarrow> bool" where
  "form_ranges lights fans tvs ac_count fridge_count wm_count =
     (0 \<le> lights \<and> lights \<le> 50 \<and> 0 \<le> fans \<and> fans \<le> 20 \<and> 0 \<le> tvs \<and> tvs \<le> 10 \<and>
      0 \<le> ac_count \<and> ac_count \<le> 10 \<and> 0 \<le> fridge_count \<and> fridge_count \<le> 5 \<and>
      0 \<le> wm_count \<and> wm_count \<le> 5)"

text \<open>The exact energy of the six counts, in tenths of a kWh.\<close>

definition exact_tenths :: "int \<Rightarrow> int \<Rightarrow> int \<Rightarrow> int \<Rightarrow> int \<Rightarrow> int \<Rightarrow> int" where
  "exact_tenths lights fans tvs ac_count fridge_count wm_count =
     2 * lights + 2 * fans + 3 * tvs + 30 * ac_count + 31 * fridge_count + 28 * wm_count"




text \<open>Concrete inputs for the examples: two clock readings of one day, and an empty store.\<close>

definition morning :: datetime where
  "morning = \<lparr>year = 2024, month = 3, day = 15, hour = 9, minute = 30, second = 0,
               microsecond = 250000\<rparr>"

definition evening :: datetime where
  "evening = \<lparr>year = 2024, month = 3, day = 15, hour = 18, minute = 45, second = 10,
               microsecond = 500000\<rparr>"

definition empty_server :: server where
  "empty_server = \<lparr>docs = [], next_id = 0, reachable = True\<rparr>"

text \<open>A store with one record of 2024-03-15 that carries a field of its own.\<close>

definition noted_record :: document where
  "noted_record =
     [''_id'' \<mapsto> VId 0, ''username'' \<mapsto> VStr ''asha'', ''date'' \<mapsto> VStr ''2024-03-15'',
      ''note'' \<mapsto> VStr ''meter replaced'']"

definition noted_server :: server where
  "noted_server = \<lparr>docs = [noted_record], next_id = 1, reachable = True\<rparr>"

section \<open>Properties of the rounding\<close>

lemma expo_bounds:
  assumes "0 < x"
  shows "2 powi expo x \<le> x" and "x < 2 powi (expo x + 1)"
proof -
  have "2 powi expo x \<le> x \<and> x < 2 powi (expo x + 1)"
  proof (cases "1 \<le> x")
    case True
    define n where "n = \<lfloor>x\<rfloor>"
    have n1: "1 \<le> n" using True by (simp add: n_def le_floor_iff)
    then have b1: "1 \<le> bitlen n" by (simp add: bitlen_alt_def)
    have bb: "2 ^ nat (bitlen n - 1) \<le> n" "n < 2 ^ nat (bitlen n)"
      using bitlen_bounds[of n] n1 by auto
    have e: "expo x = bitlen n - 1" using True by (simp add: expo_def n_def)
    have "(2::rat) powi expo x = of_int (2 ^ nat (bitlen n - 1))"
      using b1 by (simp add: e power_int_def)
    also have "\<dots> \<le> of_int n" using bb(1) by (simp only: of_int_le_iff)
    also have "\<dots> \<le> x" by (simp add: n_def)
    finally have A: "2 powi expo x \<le> x" .
    have "x < of_int (n + 1)" using floor_correct[of x] by (simp add: n_def)
    also have "\<dots> \<le> of_int (2 ^ nat (bitlen n))" using bb(2) by (simp only: of_int_le_iff)
    also have "\<dots> = (2::rat) powi (expo x + 1)" using b1 by (simp add: e power_int_def)
    finally show ?thesis using A by simp
  next
    case False
    define y where "y = 1 / x"
    define n where "n = \<lceil>y\<rceil> - 1"
    have y1: "1 < y" using False assms by (simp add: y_def)
    have xy: "x = 1 / y" by (simp add: y_def)
    have ny: "of_int n < y" "y \<le> of_int (n + 1)"
      by (simp_all add: n_def ceiling_correct) 
    have n1: "1 \<le> n" using y1 ny(2) by (smt (verit) of_int_less_iff of_int_1 less_le_trans not_le zless_add1_eq)
    then have b1: "1 \<le> bitlen n" by (simp add: bitlen_alt_def)
    have bb: "2 ^ nat (bitlen n - 1) \<le> n" "n < 2 ^ nat (bitlen n)"
      using bitlen_bounds[of n] n1 by auto
    have e: "expo x = - bitlen n" using False by (simp add: expo_def n_def y_def)
    have "y \<le> of_int (2 ^ nat (bitlen n))"
      using ny(2) bb(2) by (smt (verit) of_int_le_iff order_trans zless_add1_eq le_less)
    then have "y \<le> 2 ^ nat (bitlen n)" by simp
    then have "1 / 2 ^ nat (bitlen n) \<le> 1 / y" using y1 by (simp add: frac_le)
    moreover have "(2::rat) powi expo x = 1 / 2 ^ nat (bitlen n)"
      using b1 by (simp add: e power_int_def field_simps)
    ultimately have A: "2 powi expo x \<le> x" using xy by simp
    have "of_int (2 ^ nat (bitlen n - 1)) \<le> (of_int n :: rat)" using bb(1) by (simp only: of_int_le_iff)
    then have "(2::rat) ^ nat (bitlen n - 1) \<le> of_int n" by simp
    then have "2 ^ nat (bitlen n - 1) < y" using ny(1) by linarith
    then have "1 / y < 1 / 2 ^ nat (bitlen n - 1)" using y1 by (simp add: frac_less2)
    moreover have "(2::rat) powi (expo x + 1) = 1 / 2 ^ nat (bitlen n - 1)"
      using b1 by (simp add: e power_int_def field_simps nat_diff_distrib)
    ultimately show ?thesis using A xy by simp
  qed
  then show "2 powi expo x \<le> x" and "x < 2 powi (expo x + 1)" by simp_all
qed


lemma pow2_pos [simp]: "0 < (2::rat) powi k"
  by (simp add: power_int_def)

lemma pow2_mono: "a \<le> b \<Longrightarrow> (2::rat) powi a \<le> 2 powi b"
  by (rule power_int_increasing) simp_all

lemma pow2_add: "(2::rat) powi (a + b) = 2 powi a * 2 powi b"
  by (rule power_int_add) simp

lemma pow2_diff: "(2::rat) powi (a - b) = 2 powi a / 2 powi b"
  by (rule power_int_diff) simp

lemma expo_unique:
  assumes "0 < x" "2 powi e \<le> x" "x < 2 powi (e + 1)"
  shows "expo x = e"
proof (rule antisym)
  show "expo x \<le> e"
  proof (rule ccontr)
    assume "\<not> expo x \<le> e"
    then have "e + 1 \<le> expo x" by simp
    then have "(2::rat) powi (e + 1) \<le> 2 powi expo x" by (rule pow2_mono)
    with expo_bounds(1)[OF assms(1)] assms(3) show False by linarith
  qed
  show "e \<le> expo x"
  proof (rule ccontr)
    assume "\<not> e \<le> expo x"
    then have "expo x + 1 \<le> e" by simp
    then have "(2::rat) powi (expo x + 1) \<le> 2 powi e" by (rule pow2_mono)
    with expo_bounds(2)[OF assms(1)] assms(2) show False by linarith
  qed
qed

lemma expo_mono:
  assumes "0 < x" "x \<le> y"
  shows "expo x \<le> expo y"
proof (rule ccontr)
  assume "\<not> expo x \<le> expo y"
  then have "expo y + 1 \<le> expo x" by simp
  then have "(2::rat) powi (expo y + 1) \<le> 2 powi expo x" by (rule pow2_mono)
  moreover have "0 < y" using assms by simp
  ultimately show False
    using expo_bounds(1)[OF assms(1)] expo_bounds(2)[of y] assms(2) by linarith
qed

lemma expo_scale:
  assumes "0 < x"
  shows "expo (x * 2 powi k) = expo x + k"
proof (rule expo_unique)
  show "0 < x * 2 powi k" using assms by simp
  show "2 powi (expo x + k) \<le> x * 2 powi k"
    using expo_bounds(1)[OF assms] by (simp add: pow2_add)
  show "x * 2 powi k < 2 powi (expo x + k + 1)"
    using expo_bounds(2)[OF assms] by (simp add: pow2_add mult.commute mult.left_commute)
qed

lemma rhe_bounds: "x - 1 / 2 \<le> of_int (round_half_even x)" "of_int (round_half_even x) \<le> x + 1 / 2"
  by (auto simp: round_half_even_def Let_def; linarith)+

lemma rhe_of_int [simp]: "round_half_even (of_int n) = n"
  by (simp add: round_half_even_def Let_def)

lemma rhe_mono:
  assumes "x \<le> y"
  shows "round_half_even x \<le> round_half_even y"
proof -
  have f: "\<lfloor>x\<rfloor> \<le> \<lfloor>y\<rfloor>" using assms by (rule floor_mono)
  show ?thesis
  proof (cases "\<lfloor>x\<rfloor> = \<lfloor>y\<rfloor>")
    case True
    then show ?thesis using assms by (auto simp: round_half_even_def Let_def)
  next
    case False
    then have "\<lfloor>x\<rfloor> + 1 \<le> \<lfloor>y\<rfloor>" using f by simp
    moreover have "round_half_even x \<le> \<lfloor>x\<rfloor> + 1" by (auto simp: round_half_even_def Let_def)
    moreover have "\<lfloor>y\<rfloor> \<le> round_half_even y" by (auto simp: round_half_even_def Let_def)
    ultimately show ?thesis by linarith
  qed
qed

lemma rhe_neg: "round_half_even (- x) = - round_half_even x"
proof (cases "x = of_int \<lfloor>x\<rfloor>")
  case True
  then obtain n where "x = of_int n" ..
  then have "- x = of_int (- n)" by simp
  then show ?thesis unfolding \<open>x = of_int n\<close> by (simp only: rhe_of_int)
next
  case False
  then have c: "\<lceil>x\<rceil> = \<lfloor>x\<rfloor> + 1" by (metis ceiling_altdef)
  have fl: "\<lfloor>- x\<rfloor> = - \<lfloor>x\<rfloor> - 1" using c by (simp add: ceiling_def)
  have r: "of_int \<lfloor>x\<rfloor> < x" using False floor_correct[of x] by (metis order_less_le of_int_floor_le)
  show ?thesis
    unfolding round_half_even_def Let_def fl using r floor_correct[of x]
    by (auto simp: field_simps)
qed


lemma rnd_zero [simp]: "rnd 0 = 0"
  by (simp add: rnd_def)

lemma rnd_pos:
  "0 < x \<Longrightarrow> rnd x = of_int (round_half_even (x / 2 powi (expo x - 52))) * 2 powi (expo x - 52)"
  by (simp add: rnd_def Let_def)

lemma rnd_neg: "rnd (- x) = - rnd x"
  by (simp add: rnd_def Let_def sgn_minus)

lemma scaled_bounds:
  assumes "0 < x"
  shows "2 ^ 52 \<le> x / 2 powi (expo x - 52)" and "x / 2 powi (expo x - 52) < 2 ^ 53"
proof -
  define q where "q = x / 2 powi expo x"
  have e: "x / 2 powi (expo x - 52) = q * 2 ^ 52"
    unfolding q_def pow2_diff by simp
  have "1 \<le> q" unfolding q_def using expo_bounds(1)[OF assms] by (simp add: le_divide_eq)
  moreover have "q < 2"
    unfolding q_def using expo_bounds(2)[OF assms] by (simp add: pow2_add divide_less_eq mult.commute)
  ultimately show "2 ^ 52 \<le> x / 2 powi (expo x - 52)" and "x / 2 powi (expo x - 52) < 2 ^ 53"
    unfolding e by simp_all
qed

lemma mant_bounds:
  assumes "0 < x"
  shows "2 ^ 52 \<le> round_half_even (x / 2 powi (expo x - 52))"
    and "round_half_even (x / 2 powi (expo x - 52)) \<le> 2 ^ 53"
proof -
  have "round_half_even (of_int (2 ^ 52)) \<le> round_half_even (x / 2 powi (expo x - 52))"
    by (rule rhe_mono) (use scaled_bounds(1)[OF assms] in simp)
  then show "2 ^ 52 \<le> round_half_even (x / 2 powi (expo x - 52))"
    by (simp only: rhe_of_int)
  have "round_half_even (x / 2 powi (expo x - 52)) \<le> round_half_even (of_int (2 ^ 53))"
    by (rule rhe_mono) (use scaled_bounds(2)[OF assms] in simp)
  then show "round_half_even (x / 2 powi (expo x - 52)) \<le> 2 ^ 53"
    by (simp only: rhe_of_int)
qed

lemma rnd_pos_bounds:
  assumes "0 < x"
  shows "2 powi expo x \<le> rnd x" and "rnd x \<le> 2 powi (expo x + 1)"
proof -
  let ?m = "round_half_even (x / 2 powi (expo x - 52))"
  have "(2::rat) powi expo x = of_int (2 ^ 52) * 2 powi (expo x - 52)"
    by (simp add: pow2_diff)
  also have "\<dots> \<le> of_int ?m * 2 powi (expo x - 52)"
    using mant_bounds(1)[OF assms] by (intro mult_right_mono) (simp_all only: of_int_le_iff pow2_pos less_imp_le)
  finally show "2 powi expo x \<le> rnd x" by (simp add: rnd_pos[OF assms])
  have "of_int ?m * (2::rat) powi (expo x - 52) \<le> of_int (2 ^ 53) * 2 powi (expo x - 52)"
    using mant_bounds(2)[OF assms] by (intro mult_right_mono) (simp_all only: of_int_le_iff pow2_pos less_imp_le)
  also have "\<dots> = 2 powi (expo x + 1)"
    by (simp add: pow2_diff pow2_add)
  finally show "rnd x \<le> 2 powi (expo x + 1)" by (simp add: rnd_pos[OF assms])
qed

lemma rnd_pos_pos: "0 < x \<Longrightarrow> 0 < rnd x"
  using rnd_pos_bounds(1)[of x] pow2_pos[of "expo x"] by linarith

lemma rnd_mono_pos:
  assumes "0 < x" "x \<le> y"
  shows "rnd x \<le> rnd y"
proof -
  have y: "0 < y" using assms by simp
  have le: "expo x \<le> expo y" using assms by (rule expo_mono)
  show ?thesis
  proof (cases "expo x = expo y")
    case True
    have "x / 2 powi (expo y - 52) \<le> y / 2 powi (expo y - 52)"
      using assms(2) by (simp add: divide_right_mono)
    then have "round_half_even (x / 2 powi (expo y - 52)) \<le> round_half_even (y / 2 powi (expo y - 52))"
      by (rule rhe_mono)
    then have "(of_int (round_half_even (x / 2 powi (expo y - 52))) :: rat)
                 \<le> of_int (round_half_even (y / 2 powi (expo y - 52)))"
      by (simp only: of_int_le_iff)
    then show ?thesis
      by (simp add: rnd_pos[OF assms(1)] rnd_pos[OF y] True)
  next
    case False
    then have "expo x + 1 \<le> expo y" using le by simp
    then have "(2::rat) powi (expo x + 1) \<le> 2 powi expo y" by (rule pow2_mono)
    then show ?thesis
      using rnd_pos_bounds(2)[OF assms(1)] rnd_pos_bounds(1)[OF y] by linarith
  qed
qed

lemma rnd_mono:
  assumes "x \<le> y"
  shows "rnd x \<le> rnd y"
proof -
  consider "0 < x" | "x = 0" "y = 0" | "x = 0" "0 < y" | "x < 0" "0 < y" | "x < 0" "y = 0" | "x < 0" "y < 0"
    using assms by linarith
  then show ?thesis
  proof cases
    case 1
    then show ?thesis using assms by (rule rnd_mono_pos)
  next
    case 2
    then show ?thesis by simp
  next
    case 3
    then show ?thesis using rnd_pos_pos[of y] by simp
  next
    case 4
    then show ?thesis using rnd_pos_pos[of y] rnd_pos_pos[of "- x"] by (simp add: rnd_neg)
  next
    case 5
    then show ?thesis using rnd_pos_pos[of "- x"] by (simp add: rnd_neg)
  next
    case 6
    then have "rnd (- y) \<le> rnd (- x)" using assms by (intro rnd_mono_pos) simp_all
    then show ?thesis by (simp add: rnd_neg)
  qed
qed

lemma rnd_nonneg: "0 \<le> x \<Longrightarrow> 0 \<le> rnd x"
  using rnd_mono[of 0 x] by simp

lemma rnd_nonpos: "x \<le> 0 \<Longrightarrow> rnd x \<le> 0"
  using rnd_mono[of x 0] by simp

section \<open>Properties of the energy model\<close>

lemma rates_eval:
  "rnd (2 / 10) = 3602879701896397 / 18014398509481984"
  "rnd (3 / 10) = 5404319552844595 / 18014398509481984"
  "rnd 3 = 3"
  "rnd (31 / 10) = 6980579422424269 / 2251799813685248"
  "rnd (28 / 10) = 3152519739159347 / 1125899906842624"
  by code_simp+

lemma energy_rates_nonneg: "map_of energy_rates k = Some r \<Longrightarrow> 0 \<le> r"
  by (auto simp: energy_rates_def rnd_nonneg split: if_splits)

lemma fadd_mono: "x \<le> x' \<Longrightarrow> y \<le> y' \<Longrightarrow> fadd x y \<le> fadd x' y'"
  unfolding fadd_def by (rule rnd_mono) simp

lemma fmul_mono_left: "x \<le> x' \<Longrightarrow> 0 \<le> r \<Longrightarrow> fmul x r \<le> fmul x' r"
  unfolding fmul_def by (rule rnd_mono) (simp add: mult_right_mono)

lemma float_of_int_mono: "c \<le> c' \<Longrightarrow> float_of_int c \<le> float_of_int c'"
  unfolding float_of_int_def by (rule rnd_mono) simp

lemma add_appliance_mono:
  assumes "tot \<le> tot'" "c \<le> c'"
  shows "add_appliance (k, c) tot \<le> add_appliance (k, c') tot'"
proof (cases "map_of energy_rates k")
  case None
  then show ?thesis using assms by (simp add: add_appliance_def)
next
  case (Some r)
  then have "0 \<le> r" by (rule energy_rates_nonneg)
  then have "fmul (float_of_int c) r \<le> fmul (float_of_int c') r"
    using assms(2) by (intro fmul_mono_left float_of_int_mono)
  then show ?thesis using assms(1) Some by (simp add: add_appliance_def fadd_mono)
qed

lemma fold_add_appliance_mono:
  assumes "list_all2 (\<lambda>x y. fst x = fst y \<and> snd x \<le> snd y) a b" "tot \<le> tot'"
  shows "fold add_appliance a tot \<le> fold add_appliance b tot'"
  using assms
proof (induction a b arbitrary: tot tot' rule: list_all2_induct)
  case Nil
  then show ?case by simp
next
  case (Cons x xs y ys)
  obtain k c where x: "x = (k, c)" by (cases x)
  obtain c' where y: "y = (k, c')" using Cons.hyps(1) x by (cases y) simp
  have "add_appliance x tot \<le> add_appliance y tot'"
    unfolding x y using Cons.prems Cons.hyps(1) x y by (intro add_appliance_mono) simp_all
  then show ?case using Cons.IH by simp
qed


subsection \<open>C2: no validation of the counts\<close>




subsection \<open>C8: the worked example\<close>



subsection \<open>C10: monotone, but additive only up to rounding\<close>

text \<open>
  C10, as stated: the energy of a pointwise sum is the sum of the energies. In float
  arithmetic \<open>6 * 0.2 = 1.2000000000000002\<close> while \<open>1 * 0.2 + 5 * 0.2 = 1.2\<close>.
\<close>

theorem C10_counterexample:
  "calculate_energy_consumption [(''lights'', 1 + 5)]
   \<noteq> fadd (calculate_energy_consumption [(''lights'', 1)])
          (calculate_energy_consumption [(''lights'', 5)])"
  by code_simp

text \<open>
  C10, amended: \<^verbatim>\<open>calculate_energy_consumption\<close> is monotone: raising one count of
  the mapping by a non-negative amount never lowers the result (every rate of the table
  is non-negative and float rounding is monotone). Additivity is not claimed: it holds
  for the exact sums only, not for the rounded float results.
\<close>

theorem calculate_energy_consumption_monotone:
  assumes "i < length appliances" "appliances ! i = (k, c)" "0 \<le> d"
    and "counts_in_range appliances" "counts_in_range (appliances[i := (k, c + d)])"
  shows "calculate_energy_consumption appliances
           \<le> calculate_energy_consumption (appliances[i := (k, c + d)])"
proof -
  have refl: "list_all2 (\<lambda>x y. fst x = fst y \<and> snd x \<le> snd y) appliances appliances"
    by (simp add: list_all2_same)
  have "list_all2 (\<lambda>x y. fst x = fst y \<and> snd x \<le> snd y)
          (appliances[i := appliances ! i]) (appliances[i := (k, c + d)])"
    using refl by (rule list_all2_update_cong) (simp add: assms)
  then have "list_all2 (\<lambda>x y. fst x = fst y \<and> snd x \<le> snd y) appliances (appliances[i := (k, c + d)])"
    by simp
  then show ?thesis
    unfolding calculate_energy_consumption_def by (rule fold_add_appliance_mono) simp
qed

text \<open>The amended C10 at the example dict, with three more fans.\<close>

theorem calculate_energy_consumption_monotone_witness:
  "(1::nat) < length (form_appliances 5 2 1 1 1 0) \<and>
   form_appliances 5 2 1 1 1 0 ! 1 = (''fans'', 2) \<and> (0::int) \<le> 3 \<and>
   counts_in_range (form_appliances 5 2 1 1 1 0) \<and>
   counts_in_range ((form_appliances 5 2 1 1 1 0)[1 := (''fans'', 2 + 3)]) \<and>
   calculate_energy_consumption (form_appliances 5 2 1 1 1 0)
     \<le> calculate_energy_consumption ((form_appliances 5 2 1 1 1 0)[1 := (''fans'', 2 + 3)])"
proof -
  have a: "(1::nat) < length (form_appliances 5 2 1 1 1 0)"
    and b: "form_appliances 5 2 1 1 1 0 ! 1 = (''fans'', 2)"
    and c: "(0::int) \<le> 3"
    and d: "counts_in_range (form_appliances 5 2 1 1 1 0)"
    and e: "counts_in_range ((form_appliances 5 2 1 1 1 0)[1 := (''fans'', 2 + 3)])"
    by (simp_all add: form_appliances_def counts_in_range_def)
  show ?thesis
    using calculate_energy_consumption_monotone[OF a b c d e] a b c d e by blast
qed

section \<open>Properties of the ledger\<close>

lemma matches_id [simp]: "matches [(''_id'', i)] d \<longleftrightarrow> d ''_id'' = Some i"
  by (simp add: matches_def)

lemma matches_day [simp]:
  "matches [(''username'', VStr u), (''date'', VStr dt)] d
     \<longleftrightarrow> d ''username'' = Some (VStr u) \<and> d ''date'' = Some (VStr dt)"
  by (simp add: matches_def)

lemma data_keys:
  "map fst (consumption_data today u a e c) =
     [''username'', ''date'', ''day_of_week'', ''timestamp'', ''appliances'',
      ''total_energy_kwh'', ''estimated_cost'']"
  by (simp add: consumption_data_def)

lemma data_lookup:
  "map_of (consumption_data today u a e c) ''username'' = Some (VStr u)"
  "map_of (consumption_data today u a e c) ''date'' = Some (VStr (strftime_date today))"
  "map_of (consumption_data today u a e c) ''day_of_week'' = Some (VStr (strftime_weekday today))"
  "map_of (consumption_data today u a e c) ''timestamp'' = Some (VDate (to_millis today))"
  "map_of (consumption_data today u a e c) ''appliances'' = Some (VDoc a)"
  "map_of (consumption_data today u a e c) ''total_energy_kwh'' = Some (VNum (py_round2 e))"
  "map_of (consumption_data today u a e c) ''estimated_cost'' = Some (VNum (py_round2 c))"
  "map_of (consumption_data today u a e c) ''_id'' = None"
  by (simp_all add: consumption_data_def)

lemma data_encodable:
  "list_all (\<lambda>(k, v). encodable v) (consumption_data today u a e c) \<longleftrightarrow> encodable (VDoc a)"
  by (simp add: consumption_data_def)

lemma find_Some_D: "List.find P xs = Some x \<Longrightarrow> x \<in> set xs \<and> P x"
  by (auto simp: find_Some_iff)

lemma set_first_id:
  assumes "distinct (map (\<lambda>d. d ''_id'') ds)"
  shows "set_first [(''_id'', i)] data ds
           = map (\<lambda>d. if d ''_id'' = Some i then d ++ map_of data else d) ds"
  using assms
proof (induction ds)
  case Nil
  then show ?case by simp
next
  case (Cons d ds)
  show ?case
  proof (cases "d ''_id'' = Some i")
    case True
    then have "Some i \<notin> (\<lambda>d. d ''_id'') ` set ds" using Cons.prems by simp
    have "\<forall>x \<in> set ds. x ''_id'' \<noteq> Some i"
    proof (intro ballI notI)
      fix x assume "x \<in> set ds" "x ''_id'' = Some i"
      then have "Some i \<in> (\<lambda>d. d ''_id'') ` set ds"
        by (intro image_eqI[where x = x]) simp_all
      then show False using \<open>Some i \<notin> (\<lambda>d. d ''_id'') ` set ds\<close> by simp
    qed
    then have "map (\<lambda>d. if d ''_id'' = Some i then d ++ map_of data else d) ds = ds"
      by (induction ds) auto
    then show ?thesis using True by simp
  next
    case False
    then show ?thesis using Cons by simp
  qed
qed

lemma set_first_update:
  assumes "distinct (map (\<lambda>d. d ''_id'') ds)" "j < length ds" "(ds ! j) ''_id'' = Some i"
  shows "set_first [(''_id'', i)] data ds = ds[j := ds ! j ++ map_of data]"
proof -
  have other: "(ds ! n) ''_id'' \<noteq> Some i" if "n < length ds" "n \<noteq> j" for n
  proof
    assume "(ds ! n) ''_id'' = Some i"
    then have "map (\<lambda>d. d ''_id'') ds ! n = map (\<lambda>d. d ''_id'') ds ! j"
      using assms(2,3) that(1) by simp
    then show False
      using assms(2) that nth_eq_iff_index_eq[OF assms(1), of n j] by simp
  qed
  have eq: "(ds ! n) ''_id'' = Some i \<longleftrightarrow> n = j" if "n < length ds" for n
    using other[OF that] assms(3) by auto
  show ?thesis
    unfolding set_first_id[OF assms(1)]
    by (rule nth_equalityI) (simp_all add: nth_list_update eq)
qed


lemma save_update:
  assumes "reachable s" "encodable (VDoc a)"
    and "List.find (matches [(''username'', VStr u), (''date'', VStr (strftime_date today))]) (docs s)
           = Some ex"
    and "ex ''_id'' = Some i"
  shows "save_consumption_data (Some s) today u a e c
           = (True, Some (s\<lparr>docs := set_first [(''_id'', i)] (consumption_data today u a e c) (docs s)\<rparr>), [])"
  using assms
  by (simp add: save_consumption_data_def find_one_def update_one_def data_encodable Let_def)

lemma save_insert:
  assumes "reachable s" "encodable (VDoc a)"
    and "List.find (matches [(''username'', VStr u), (''date'', VStr (strftime_date today))]) (docs s)
           = None"
  shows "save_consumption_data (Some s) today u a e c
           = (True,
              Some (s\<lparr>docs := docs s @ [(map_of (consumption_data today u a e c))(''_id'' \<mapsto> VId (next_id s))],
                      next_id := Suc (next_id s)\<rparr>), [])"
  using assms
  by (simp add: save_consumption_data_def find_one_def insert_one_def data_encodable Let_def)

lemma has_id_below_iff: "has_id_below n d \<longleftrightarrow> (\<exists>i. d ''_id'' = Some (VId i) \<and> i < n)"
  by (auto simp: has_id_below_def split: option.splits bson.splits)

lemma wf_server_id:
  assumes "wf_server s" "d \<in> set (docs s)"
  obtains i where "d ''_id'' = Some (VId i)" "i < next_id s"
  using assms by (auto simp: wf_server_def list_all_iff has_id_below_iff)

lemma wf_server_inj:
  assumes "wf_server s" "d \<in> set (docs s)" "d' \<in> set (docs s)" "d ''_id'' = d' ''_id''"
  shows "d = d'"
proof -
  have "inj_on (\<lambda>d. d ''_id'') (set (docs s))"
    using assms(1) by (simp add: wf_server_def distinct_map)
  then show ?thesis using assms(2-4) by (auto dest: inj_onD)
qed

lemma upd_keeps_id:
  "(d ++ map_of (consumption_data today u a e c)) ''_id'' = d ''_id''"
  by (simp add: map_add_def data_lookup)


lemma insert_wf:
  assumes wf: "wf_server s"
  shows "wf_server (s\<lparr>docs := docs s @ [m(''_id'' \<mapsto> VId (next_id s))], next_id := Suc (next_id s)\<rparr>)"
proof -
  have fresh: "Some (VId (next_id s)) \<notin> (\<lambda>d. d ''_id'') ` set (docs s)"
  proof
    assume "Some (VId (next_id s)) \<in> (\<lambda>d. d ''_id'') ` set (docs s)"
    then obtain d where d: "d \<in> set (docs s)" "d ''_id'' = Some (VId (next_id s))" by auto
    from wf d(1) obtain i where "d ''_id'' = Some (VId i)" "i < next_id s" by (rule wf_server_id)
    with d(2) show False by simp
  qed
  have "list_all (has_id_below (Suc (next_id s))) (docs s)"
    using wf by (auto simp: wf_server_def list_all_iff has_id_below_iff)
  moreover have "has_id_below (Suc (next_id s)) (m(''_id'' \<mapsto> VId (next_id s)))"
    by (simp add: has_id_below_iff)
  ultimately show ?thesis
    using wf fresh by (simp add: wf_server_def)
qed

lemma update_wf:
  assumes wf: "wf_server s"
  shows "wf_server (s\<lparr>docs := map (\<lambda>d. if d ''_id'' = Some i
            then d ++ map_of (consumption_data today u a e c) else d) (docs s)\<rparr>)"
    (is "wf_server (s\<lparr>docs := map ?upd (docs s)\<rparr>)")
proof -
  have ids: "map ((\<lambda>d. d ''_id'') \<circ> ?upd) (docs s) = map (\<lambda>d. d ''_id'') (docs s)"
    by (rule map_cong) (simp_all add: upd_keeps_id)
  have "has_id_below n (?upd d) = has_id_below n d" for n d
    by (simp add: has_id_below_def upd_keeps_id)
  then have "list_all (has_id_below (next_id s) \<circ> ?upd) (docs s)"
    using wf by (simp only: wf_server_def list_all_iff comp_apply) simp
  then have "list_all (has_id_below (next_id s)) (map ?upd (docs s))"
    by (simp only: list.pred_map)
  then show ?thesis
    using wf by (simp add: wf_server_def ids)
qed

lemma update_records_for:
  assumes wf: "wf_server s" and ex: "ex \<in> set (docs s)" "ex ''_id'' = Some i"
    and P: "matches [(''username'', VStr u), (''date'', VStr (strftime_date today))] ex"
  shows "records_for (s\<lparr>docs := map (\<lambda>d. if d ''_id'' = Some i
            then d ++ map_of (consumption_data today u a e c) else d) (docs s)\<rparr>) u2 d2
         = map (\<lambda>d. if d ''_id'' = Some i
            then d ++ map_of (consumption_data today u a e c) else d) (records_for s u2 d2)"
    (is "records_for (s\<lparr>docs := map ?upd (docs s)\<rparr>) u2 d2 = _")
proof -
  let ?P = "matches [(''username'', VStr u2), (''date'', VStr d2)]"
  have same: "?P (?upd d) = ?P d" if "d \<in> set (docs s)" for d
  proof (cases "d ''_id'' = Some i")
    case True
    then have "d = ex" using wf that ex by (intro wf_server_inj[of s]) simp_all
    then show ?thesis using P True by (auto simp: map_add_def data_lookup)
  next
    case False
    then show ?thesis by simp
  qed
  have "filter ?P (map ?upd (docs s)) = map ?upd (filter (?P \<circ> ?upd) (docs s))"
    by (simp only: filter_map)
  also have "filter (?P \<circ> ?upd) (docs s) = filter ?P (docs s)"
    by (rule filter_cong) (simp_all only: comp_apply same)
  finally show ?thesis unfolding records_for_def by (simp del: matches_day)
qed

lemma insert_records_for:
  "records_for (s\<lparr>docs := docs s @ [(map_of (consumption_data today u a e c))(''_id'' \<mapsto> v)],
                  next_id := n\<rparr>) u2 d2
   = records_for s u2 d2 @
       (if u2 = u \<and> d2 = strftime_date today
        then [(map_of (consumption_data today u a e c))(''_id'' \<mapsto> v)] else [])"
  by (simp add: records_for_def data_lookup)

text \<open>The three ways a call can end: nothing written, one document updated, one appended.\<close>

lemma save_cases:
  assumes wf: "wf_server s"
  obtains
    (failed) msgs where "save_consumption_data (Some s) today u a e c = (False, Some s, msgs)"
      and "\<not> (reachable s \<and> encodable (VDoc a))"
  | (updated) ex i where "reachable s" "encodable (VDoc a)"
      and "List.find (matches [(''username'', VStr u), (''date'', VStr (strftime_date today))]) (docs s) = Some ex"
      and "ex ''_id'' = Some i"
      and "save_consumption_data (Some s) today u a e c
            = (True, Some (s\<lparr>docs := map (\<lambda>d. if d ''_id'' = Some i
                 then d ++ map_of (consumption_data today u a e c) else d) (docs s)\<rparr>), [])"
  | (inserted) "reachable s" "encodable (VDoc a)"
      and "List.find (matches [(''username'', VStr u), (''date'', VStr (strftime_date today))]) (docs s) = None"
      and "save_consumption_data (Some s) today u a e c
            = (True, Some (s\<lparr>docs := docs s @ [(map_of (consumption_data today u a e c))(''_id'' \<mapsto> VId (next_id s))],
                      next_id := Suc (next_id s)\<rparr>), [])"
proof (cases "reachable s \<and> encodable (VDoc a)")
  case False
  then have "\<exists>msgs. save_consumption_data (Some s) today u a e c = (False, Some s, msgs)"
    by (auto simp: save_consumption_data_def find_one_def insert_one_def update_one_def
        data_encodable Let_def split: option.splits)
  then show ?thesis using failed False by blast
next
  case True
  then have up: "reachable s" and enc: "encodable (VDoc a)" by simp_all
  show ?thesis
  proof (cases "List.find (matches [(''username'', VStr u), (''date'', VStr (strftime_date today))]) (docs s)")
    case None
    show ?thesis using inserted[OF up enc None] save_insert[OF up enc None] by blast
  next
    case (Some ex)
    then have "ex \<in> set (docs s)" by (auto dest: find_Some_D)
    with wf obtain i where i: "ex ''_id'' = Some (VId i)" by (rule wf_server_id)
    have dist: "distinct (map (\<lambda>d. d ''_id'') (docs s))" using wf by (simp add: wf_server_def)
    show ?thesis
      using updated[OF up enc Some i] save_update[OF up enc Some i, of e c]
      by (simp add: set_first_id[OF dist])
  qed
qed

lemma save_preserves:
  assumes wf: "wf_server s"
  shows "\<exists>s'. fst (snd (save_consumption_data (Some s) today u a e c)) = Some s' \<and>
           wf_server s' \<and> reachable s' = reachable s \<and>
           (length (records_for s u2 d2) \<le> 1 \<longrightarrow> length (records_for s' u2 d2) \<le> 1)"
  using wf
proof (cases rule: save_cases[where today = today and u = u and a = a and e = e and c = c])
  case (failed msgs)
  then show ?thesis using wf by simp
next
  case (updated ex i)
  have ex: "ex \<in> set (docs s)"
    "matches [(''username'', VStr u), (''date'', VStr (strftime_date today))] ex"
    using updated(3) by (auto dest: find_Some_D)
  show ?thesis
    using updated(5) update_wf[OF wf] update_records_for[OF wf ex(1) updated(4) ex(2)]
    by simp
next
  case inserted
  have "records_for s u (strftime_date today) = []"
    using inserted(3) by (auto simp: records_for_def find_None_iff filter_empty_conv)
  then show ?thesis
    using inserted(4) insert_wf[OF wf] by (auto simp: insert_records_for)
qed

lemma run_saves_preserves:
  assumes "wf_server s" "length (records_for s u d) \<le> 1"
  shows "\<exists>s'. run_saves (Some s) subs = Some s' \<and> wf_server s' \<and> length (records_for s' u d) \<le> 1"
  using assms
proof (induction subs arbitrary: s)
  case Nil
  then show ?case by simp
next
  case (Cons x xs)
  from save_preserves[OF Cons.prems(1), of "sub_today x" "sub_username x" "sub_appliances x"
      "sub_total_energy x" "sub_cost x" u d]
  obtain s1 where s1: "fst (snd (save_consumption_data (Some s) (sub_today x) (sub_username x)
      (sub_appliances x) (sub_total_energy x) (sub_cost x))) = Some s1"
    "wf_server s1" "length (records_for s1 u d) \<le> 1"
    using Cons.prems(2) by blast
  from Cons.IH[OF s1(2,3)] show ?case by (simp add: s1(1))
qed

lemma save_records_for:
  assumes wf: "wf_server s" and up: "reachable s" and enc: "encodable (VDoc a)"
    and one: "length (records_for s u (strftime_date today)) \<le> 1"
  shows "\<exists>s' r. save_consumption_data (Some s) today u a e c = (True, Some s', []) \<and>
           wf_server s' \<and> reachable s' \<and>
           records_for s' u (strftime_date today) = [r] \<and>
           r ''appliances'' = Some (VDoc a) \<and>
           r ''total_energy_kwh'' = Some (VNum (py_round2 e)) \<and>
           r ''estimated_cost'' = Some (VNum (py_round2 c))"
  using wf
proof (cases rule: save_cases[where today = today and u = u and a = a and e = e and c = c])
  case (failed msgs)
  then show ?thesis using up enc by simp
next
  case (updated ex i)
  have ex: "ex \<in> set (docs s)"
    "matches [(''username'', VStr u), (''date'', VStr (strftime_date today))] ex"
    using updated(3) by (auto dest: find_Some_D)
  then have "ex \<in> set (records_for s u (strftime_date today))" by (simp add: records_for_def)
  then have "records_for s u (strftime_date today) = [ex]"
    using one by (cases "records_for s u (strftime_date today)") auto
  then have "records_for (s\<lparr>docs := map (\<lambda>d. if d ''_id'' = Some i
            then d ++ map_of (consumption_data today u a e c) else d) (docs s)\<rparr>) u (strftime_date today)
      = [ex ++ map_of (consumption_data today u a e c)]"
    using update_records_for[OF wf ex(1) updated(4) ex(2), of a e c u "strftime_date today"] updated(4)
    by simp
  then show ?thesis
    using updated(5) update_wf[OF wf] up
    by (simp add: map_add_def data_lookup)
next
  case inserted
  have "records_for s u (strftime_date today) = []"
    using inserted(3) by (auto simp: records_for_def find_None_iff filter_empty_conv)
  then show ?thesis
    using inserted(4) insert_wf[OF wf] up by (simp add: insert_records_for data_lookup)
qed

lemma morning_eval:
  "strftime_date morning = ''2024-03-15''" "to_millis morning = 1710495000250"
  "strftime_weekday morning = ''Friday''" "to_micros morning = 63846178200250000"
  by (simp_all add: morning_def strftime_date_def dec4_def dec2_def digit_def to_millis_def
      micros_to_millis_def to_micros_def toordinal_def days_before_year_def days_before_month_def
      is_leap_def strftime_weekday_def)

lemma evening_eval:
  "strftime_date evening = ''2024-03-15''" "to_millis evening = 1710528310500"
  "to_micros evening = 63846211510500000"
  by (simp_all add: evening_def strftime_date_def dec4_def dec2_def digit_def to_millis_def
      micros_to_millis_def to_micros_def toordinal_def days_before_year_def days_before_month_def
      is_leap_def)

lemma empty_server_wf: "wf_server empty_server" "reachable empty_server" "docs empty_server = []"
  by (simp_all add: empty_server_def wf_server_def)

lemma form_encodable: "encodable (VDoc (form_appliances 5 2 1 1 1 0))" "encodable (VDoc (form_appliances 3 1 0 0 1 1))"
  by (simp_all add: form_appliances_def)

lemma noted_server_eval:
  "wf_server noted_server" "reachable noted_server" "docs noted_server = [noted_record]"
  by (simp_all add: noted_server_def noted_record_def wf_server_def has_id_below_def)

lemma noted_find:
  "List.find (matches [(''username'', VStr ''asha''), (''date'', VStr (strftime_date evening))])
     (docs noted_server) = Some noted_record"
  by (simp add: noted_server_eval evening_eval) (simp add: noted_record_def)

lemma morning_window: "window_start morning 14 = Inr 63844968600250000"
  by (simp add: window_start_def morning_eval)

subsection \<open>C1: one record per user and day\<close>

text \<open>
  C1: in a store that holds at most one record for a (username, date) pair, that stays
  so after every sequence of calls of \<^verbatim>\<open>save_consumption_data\<close>, whoever they are for
  and whether they succeed; and two successful calls for the user on the same day leave
  exactly one record for the pair, with the appliances, the energy and the cost of the
  second call (both rounded to two decimals).
\<close>

theorem save_consumption_data_one_record_per_day:
  assumes "wf_server s" "reachable s"
    and "length (records_for s username (strftime_date t1)) \<le> 1"
    and "strftime_date t2 = strftime_date t1"
    and "encodable (VDoc a1)" "encodable (VDoc a2)"
  shows "(\<forall>subs. \<exists>s'. run_saves (Some s) subs = Some s' \<and>
            length (records_for s' username (strftime_date t1)) \<le> 1) \<and>
         (\<exists>s1 s2 r.
            save_consumption_data (Some s) t1 username a1 e1 c1 = (True, Some s1, []) \<and>
            save_consumption_data (Some s1) t2 username a2 e2 c2 = (True, Some s2, []) \<and>
            records_for s2 username (strftime_date t1) = [r] \<and>
            r ''appliances'' = Some (VDoc a2) \<and>
            r ''total_energy_kwh'' = Some (VNum (py_round2 e2)) \<and>
            r ''estimated_cost'' = Some (VNum (py_round2 c2)))"
proof
  show "\<forall>subs. \<exists>s'. run_saves (Some s) subs = Some s' \<and>
            length (records_for s' username (strftime_date t1)) \<le> 1"
    using run_saves_preserves[OF assms(1,3)] by blast
next
  from save_records_for[OF assms(1,2,5,3), of e1 c1]
  obtain s1 r1 where s1: "save_consumption_data (Some s) t1 username a1 e1 c1 = (True, Some s1, [])"
    "wf_server s1" "reachable s1" "records_for s1 username (strftime_date t1) = [r1]"
    by blast
  have one: "length (records_for s1 username (strftime_date t2)) \<le> 1"
    using s1(4) assms(4) by simp
  from save_records_for[OF s1(2,3) assms(6) one, of e2 c2]
  obtain s2 r where s2: "save_consumption_data (Some s1) t2 username a2 e2 c2 = (True, Some s2, [])"
    "records_for s2 username (strftime_date t2) = [r]"
    "r ''appliances'' = Some (VDoc a2)"
    "r ''total_energy_kwh'' = Some (VNum (py_round2 e2))"
    "r ''estimated_cost'' = Some (VNum (py_round2 c2))"
    by blast
  show "\<exists>s1 s2 r.
            save_consumption_data (Some s) t1 username a1 e1 c1 = (True, Some s1, []) \<and>
            save_consumption_data (Some s1) t2 username a2 e2 c2 = (True, Some s2, []) \<and>
            records_for s2 username (strftime_date t1) = [r] \<and>
            r ''appliances'' = Some (VDoc a2) \<and>
            r ''total_energy_kwh'' = Some (VNum (py_round2 e2)) \<and>
            r ''estimated_cost'' = Some (VNum (py_round2 c2))"
    using s1(1) s2 assms(4) by auto
qed

text \<open>C1 at two submissions of one day into the empty store.\<close>

theorem save_consumption_data_one_record_per_day_witness:
  "wf_server empty_server \<and> reachable empty_server \<and>
   length (records_for empty_server ''asha'' (strftime_date morning)) \<le> 1 \<and>
   strftime_date evening = strftime_date morning \<and>
   encodable (VDoc (form_appliances 5 2 1 1 1 0)) \<and>
   encodable (VDoc (form_appliances 3 1 0 0 1 1)) \<and>
   (\<forall>subs. \<exists>s'. run_saves (Some empty_server) subs = Some s' \<and>
            length (records_for s' ''asha'' (strftime_date morning)) \<le> 1) \<and>
   (\<exists>s1 s2 r.
      save_consumption_data (Some empty_server) morning ''asha'' (form_appliances 5 2 1 1 1 0) (78 / 10) (624 / 10)
        = (True, Some s1, []) \<and>
      save_consumption_data (Some s1) evening ''asha'' (form_appliances 3 1 0 0 1 1) (67 / 10) (536 / 10)
        = (True, Some s2, []) \<and>
      records_for s2 ''asha'' (strftime_date morning) = [r] \<and>
      r ''appliances'' = Some (VDoc (form_appliances 3 1 0 0 1 1)) \<and>
      r ''total_energy_kwh'' = Some (VNum (py_round2 (67 / 10))) \<and>
      r ''estimated_cost'' = Some (VNum (py_round2 (536 / 10))))"
proof -
  have h3: "length (records_for empty_server ''asha'' (strftime_date morning)) \<le> 1"
    by (simp add: records_for_def empty_server_wf)
  have h4: "strftime_date evening = strftime_date morning"
    by (simp add: morning_eval evening_eval)
  show ?thesis
    using save_consumption_data_one_record_per_day[OF empty_server_wf(1,2) h3 h4 form_encodable,
        of "78 / 10" "624 / 10" "67 / 10" "536 / 10"]
      empty_server_wf(1,2) h3 h4 form_encodable
    by simp
qed

subsection \<open>C9: an existing record is updated in place\<close>

text \<open>
  C9: when the lookup finds a record for the (username, date) pair, the call changes
  that document only and leaves it where it is in the collection: its \<^verbatim>\<open>_id\<close> is
  unchanged, the seven fields of the new data take the new values, and every other
  field of the document keeps its value. No document is added.
\<close>

theorem save_consumption_data_updates_in_place:
  assumes "wf_server s" "reachable s" "encodable (VDoc appliances)"
    and "List.find (matches [(''username'', VStr username), (''date'', VStr (strftime_date today))])
           (docs s) = Some existing"
  shows "\<exists>j s'. j < length (docs s) \<and> docs s ! j = existing \<and>
           save_consumption_data (Some s) today username appliances total_energy cost
             = (True, Some s', []) \<and>
           docs s' = (docs s)[j := docs s' ! j] \<and> next_id s' = next_id s \<and>
           (docs s' ! j) ''_id'' = existing ''_id'' \<and>
           (\<forall>k \<in> set [''username'', ''date'', ''day_of_week'', ''timestamp'', ''appliances'',
                       ''total_energy_kwh'', ''estimated_cost''].
              (docs s' ! j) k
                = map_of (consumption_data today username appliances total_energy cost) k) \<and>
           (\<forall>k. k \<notin> set [''username'', ''date'', ''day_of_week'', ''timestamp'', ''appliances'',
                       ''total_energy_kwh'', ''estimated_cost'']
              \<longrightarrow> (docs s' ! j) k = existing k)"
proof -
  let ?data = "consumption_data today username appliances total_energy cost"
  from assms(4) obtain j where j: "j < length (docs s)" "docs s ! j = existing"
    by (auto simp: find_Some_iff)
  then have "existing \<in> set (docs s)" by auto
  with assms(1) obtain i where i: "existing ''_id'' = Some (VId i)" by (rule wf_server_id)
  have dist: "distinct (map (\<lambda>d. d ''_id'') (docs s))" using assms(1) by (simp add: wf_server_def)
  have upd: "set_first [(''_id'', VId i)] ?data (docs s) = (docs s)[j := existing ++ map_of ?data]"
    using set_first_update[OF dist j(1), of "VId i" ?data] i j(2) by simp
  let ?s' = "s\<lparr>docs := (docs s)[j := existing ++ map_of ?data]\<rparr>"
  have sv: "save_consumption_data (Some s) today username appliances total_energy cost
              = (True, Some ?s', [])"
    using save_update[OF assms(2,3,4) i, of total_energy cost] by (simp add: upd)
  have new: "docs ?s' ! j = existing ++ map_of ?data" using j(1) by simp
  have other: "(existing ++ map_of ?data) k = existing k"
    if "k \<notin> set [''username'', ''date'', ''day_of_week'', ''timestamp'', ''appliances'',
                       ''total_energy_kwh'', ''estimated_cost'']" for k
  proof -
    have "k \<notin> set (map fst ?data)" unfolding data_keys by (rule that)
    then have "map_of ?data k = None" by (simp add: map_of_eq_None_iff)
    then show ?thesis by (simp add: map_add_def)
  qed
  have named: "(existing ++ map_of ?data) k = map_of ?data k"
    if "k \<in> set [''username'', ''date'', ''day_of_week'', ''timestamp'', ''appliances'',
                       ''total_energy_kwh'', ''estimated_cost'']" for k
  proof -
    have "k \<in> set (map fst ?data)" unfolding data_keys by (rule that)
    then have "k \<in> dom (map_of ?data)" by (simp add: dom_map_of_conv_image_fst)
    then show ?thesis by (auto simp: map_add_def)
  qed
  show ?thesis
    apply (rule exI[of _ j], rule exI[of _ ?s'])
    using j sv other named unfolding new
    by (simp add: upd_keeps_id)
qed

text \<open>C9 at a record that carries a \<^verbatim>\<open>note\<close> field.\<close>

theorem save_consumption_data_updates_in_place_witness:
  "wf_server noted_server \<and> reachable noted_server \<and>
   encodable (VDoc (form_appliances 3 1 0 0 1 1)) \<and>
   List.find (matches [(''username'', VStr ''asha''), (''date'', VStr (strftime_date evening))])
     (docs noted_server) = Some noted_record \<and>
   (\<exists>j s'. j < length (docs noted_server) \<and> docs noted_server ! j = noted_record \<and>
      save_consumption_data (Some noted_server) evening ''asha'' (form_appliances 3 1 0 0 1 1)
          (67 / 10) (536 / 10)
        = (True, Some s', []) \<and>
      docs s' = (docs noted_server)[j := docs s' ! j] \<and> next_id s' = next_id noted_server \<and>
      (docs s' ! j) ''_id'' = noted_record ''_id'' \<and>
      (\<forall>k \<in> set [''username'', ''date'', ''day_of_week'', ''timestamp'', ''appliances'',
                  ''total_energy_kwh'', ''estimated_cost''].
         (docs s' ! j) k
           = map_of (consumption_data evening ''asha'' (form_appliances 3 1 0 0 1 1)
               (67 / 10) (536 / 10)) k) \<and>
      (\<forall>k. k \<notin> set [''username'', ''date'', ''day_of_week'', ''timestamp'', ''appliances'',
                  ''total_energy_kwh'', ''estimated_cost'']
         \<longrightarrow> (docs s' ! j) k = noted_record k))"
  using save_consumption_data_updates_in_place[OF noted_server_eval(1,2) form_encodable(2) noted_find,
      of "67 / 10" "536 / 10"]
    noted_server_eval(1,2) form_encodable(2) noted_find
  by blast

subsection \<open>C7: the fields of a persisted record\<close>




subsection \<open>C6: no data and failure return the same value\<close>

text \<open>
  C6, as stated: a data-access failure reaches the caller as an error, distinct from
  the empty result. With the server down the function catches the exception, shows a
  message and returns the empty list.
\<close>

theorem C6_counterexample:
  "get_user_consumption_data (Some (empty_server\<lparr>reachable := False\<rparr>)) morning ''asha'' 14
     = Inr ([], [''Error retrieving consumption data: ServerSelectionTimeoutError''])"
  by (simp add: get_user_consumption_data_def morning_window find_since_sorted_def empty_server_def)

text \<open>
  C6, amended: \<^verbatim>\<open>get_user_consumption_data\<close> returns the empty list when no record
  of the user lies in the window, and it returns the empty list as well when the data
  access fails: without a message when \<^verbatim>\<open>db\<close> is \<open>None\<close>, after showing a message
  through \<^verbatim>\<open>st.error\<close> when the query raises. The returned value does not tell the
  three apart.
\<close>

theorem get_user_consumption_data_empty_on_failure:
  assumes "window_start now days = Inr start_date"
    and "reachable s"
    and "list_all (\<lambda>d. \<not> (matches [(''username'', VStr username)] d \<and>
                          gte_date d ''timestamp'' (micros_to_millis start_date))) (docs s)"
    and "\<not> reachable s'"
  shows "get_user_consumption_data (Some s) now username days = Inr ([], []) \<and>
         get_user_consumption_data (Some s') now username days
           = Inr ([], [''Error retrieving consumption data: ServerSelectionTimeoutError'']) \<and>
         get_user_consumption_data None now username days = Inr ([], [])"
proof -
  have "filter (\<lambda>d. matches [(''username'', VStr username)] d \<and>
                   gte_date d ''timestamp'' (micros_to_millis start_date)) (docs s) = []"
    using assms(3) by (simp add: filter_empty_conv list_all_iff)
  then show ?thesis
    using assms(1,2,4) by (simp add: get_user_consumption_data_def find_since_sorted_def)
qed

text \<open>The amended C6 at a store whose only record has no timestamp in the window.\<close>

theorem get_user_consumption_data_empty_on_failure_witness:
  "window_start morning 14 = Inr 63844968600250000 \<and>
   reachable noted_server \<and>
   list_all (\<lambda>d. \<not> (matches [(''username'', VStr ''asha'')] d \<and>
                    gte_date d ''timestamp'' (micros_to_millis 63844968600250000)))
     (docs noted_server) \<and>
   \<not> reachable (noted_server\<lparr>reachable := False\<rparr>) \<and>
   get_user_consumption_data (Some noted_server) morning ''asha'' 14 = Inr ([], []) \<and>
   get_user_consumption_data (Some (noted_server\<lparr>reachable := False\<rparr>)) morning ''asha'' 14
     = Inr ([], [''Error retrieving consumption data: ServerSelectionTimeoutError'']) \<and>
   get_user_consumption_data None morning ''asha'' 14 = Inr ([], [])"
proof -
  have h3: "list_all (\<lambda>d. \<not> (matches [(''username'', VStr ''asha'')] d \<and>
                    gte_date d ''timestamp'' (micros_to_millis 63844968600250000)))
     (docs noted_server)"
    by (simp add: noted_server_eval noted_record_def gte_date_def)
  have h4: "\<not> reachable (noted_server\<lparr>reachable := False\<rparr>)" by simp
  show ?thesis
    using get_user_consumption_data_empty_on_failure[OF morning_window noted_server_eval(2) h3 h4]
      morning_window noted_server_eval(2) h3 h4
    by blast
qed

section \<open>Properties of the calendar and of the date strings\<close>



























section \<open>Properties of the range query\<close>










subsection \<open>C5: the result is ordered by date\<close>



subsection \<open>C3: a window of zero days\<close>




section \<open>Rounding error of the energy of a form submission\<close>

lemma rnd_rep_pos:
  assumes "0 < m" "m < 2 ^ 53"
  shows "rnd (of_int m * 2 powi k) = of_int m * 2 powi k"
proof -
  let ?x = "of_int m * (2::rat) powi k"
  have x: "0 < ?x" using assms(1) by simp
  have "(of_int m :: rat) < of_int (2 ^ 53)" using assms(2) by (simp only: of_int_less_iff)
  then have "(of_int m :: rat) < 2 ^ 53" by simp
  then have "?x < 2 ^ 53 * 2 powi k"
    by (intro mult_strict_right_mono) simp_all
  also have "\<dots> = 2 powi (53 + k)" by (simp add: pow2_add)
  finally have "2 powi expo ?x < (2::rat) powi (53 + k)"
    using expo_bounds(1)[OF x] by linarith
  then have "expo ?x < 53 + k"
    by (metis pow2_mono not_le)
  then have ke: "0 \<le> k - (expo ?x - 52)" by simp
  have "?x / 2 powi (expo ?x - 52) = of_int m * 2 powi (k - (expo ?x - 52))"
    by (simp add: pow2_diff[of k])
  also have "\<dots> = of_int (m * 2 ^ nat (k - (expo ?x - 52)))"
    using ke by (simp add: power_int_def)
  finally have s: "?x / 2 powi (expo ?x - 52) = of_int (m * 2 ^ nat (k - (expo ?x - 52)))" .
  have "rnd ?x = of_int (m * 2 ^ nat (k - (expo ?x - 52))) * 2 powi (expo ?x - 52)"
    unfolding rnd_pos[OF x] s rhe_of_int ..
  also have "\<dots> = ?x / 2 powi (expo ?x - 52) * 2 powi (expo ?x - 52)"
    by (simp only: s)
  also have "\<dots> = ?x" by simp
  finally show ?thesis .
qed

lemma rnd_rep:
  assumes "\<bar>m\<bar> < 2 ^ 53"
  shows "rnd (of_int m * 2 powi k) = of_int m * 2 powi k"
proof -
  consider "0 < m" | "m = 0" | "m < 0" by linarith
  then show ?thesis
  proof cases
    case 1
    then show ?thesis using assms by (intro rnd_rep_pos) simp_all
  next
    case 2
    then show ?thesis by simp
  next
    case 3
    then have "rnd (of_int (- m) * 2 powi k) = of_int (- m) * 2 powi k"
      using assms by (intro rnd_rep_pos) simp_all
    then show ?thesis using rnd_neg[of "of_int m * 2 powi k"] by simp
  qed
qed

lemma float_of_int_exact: "\<bar>n\<bar> < 2 ^ 53 \<Longrightarrow> float_of_int n = of_int n"
  using rnd_rep[of n 0] by (simp add: float_of_int_def)

lemma rnd_idem: "rnd (rnd x) = rnd x"
proof -
  have pos: "rnd (rnd x) = rnd x" if "0 < x" for x
  proof -
    let ?M = "round_half_even (x / 2 powi (expo x - 52))"
    have r: "rnd x = of_int ?M * 2 powi (expo x - 52)" by (rule rnd_pos[OF that])
    show ?thesis
    proof (cases "?M = 2 ^ 53")
      case True
      have p1: "(2::rat) powi (E + 1) = 2 powi E * 2" for E by (simp add: pow2_add)
      have "rnd x = of_int (2 ^ 52) * 2 powi (expo x - 52 + 1)"
        unfolding r True p1 by simp
      moreover have "rnd (of_int (2 ^ 52) * 2 powi (expo x - 52 + 1))
                       = of_int (2 ^ 52) * 2 powi (expo x - 52 + 1)"
        by (rule rnd_rep) simp
      ultimately show ?thesis by simp
    next
      case False
      then have "\<bar>?M\<bar> < 2 ^ 53" using mant_bounds[OF that] by simp
      then show ?thesis unfolding r by (rule rnd_rep)
    qed
  qed
  consider "0 < x" | "x = 0" | "x < 0" by linarith
  then show ?thesis
  proof cases
    case 1
    then show ?thesis by (rule pos)
  next
    case 2
    then show ?thesis by simp
  next
    case 3
    then have "rnd (rnd (- x)) = rnd (- x)" by (intro pos) simp
    then show ?thesis by (simp add: rnd_neg)
  qed
qed

lemma rnd_scale: "rnd (x * 2 powi k) = rnd x * 2 powi k"
proof -
  have pos: "rnd (x * 2 powi k) = rnd x * 2 powi k" if "0 < x" for x
  proof -
    have xk: "0 < x * 2 powi k" using that by simp
    have e: "expo (x * 2 powi k) = expo x + k" by (rule expo_scale[OF that])
    have "x * 2 powi k / 2 powi (expo x + k - 52) = x / 2 powi (expo x - 52)"
      by (simp add: pow2_diff pow2_add)
    moreover have "(2::rat) powi (expo x + k - 52) = 2 powi (expo x - 52) * 2 powi k"
      by (simp add: pow2_diff pow2_add)
    ultimately show ?thesis
      by (simp add: rnd_pos[OF xk] rnd_pos[OF that] e)
  qed
  consider "0 < x" | "x = 0" | "x < 0" by linarith
  then show ?thesis
  proof cases
    case 1
    then show ?thesis by (rule pos)
  next
    case 2
    then show ?thesis by simp
  next
    case 3
    then have "rnd (- x * 2 powi k) = rnd (- x) * 2 powi k" by (intro pos) simp
    then show ?thesis using rnd_neg[of "x * 2 powi k"] by (simp add: rnd_neg)
  qed
qed

lemma rnd_err:
  "\<bar>rnd x - x\<bar> \<le> \<bar>x\<bar> / 2 ^ 53"
proof -
  have pos: "\<bar>rnd x - x\<bar> \<le> x / 2 ^ 53" if "0 < x" for x
  proof -
    define e where "e = expo x - 52"
    define s where "s = x / 2 powi e"
    define M where "M = round_half_even s"
    have x: "x = s * 2 powi e" by (simp add: s_def)
    have r: "rnd x = of_int M * 2 powi e" by (simp add: rnd_pos[OF that] M_def s_def e_def)
    have "\<bar>of_int M - s\<bar> \<le> 1 / 2" using rhe_bounds[of s] unfolding M_def by linarith
    then have "\<bar>of_int M - s\<bar> * 2 powi e \<le> 1 / 2 * 2 powi e"
      by (intro mult_right_mono) simp_all
    moreover have "rnd x - x = (of_int M - s) * 2 powi e"
    proof -
      have "rnd x - x = of_int M * 2 powi e - s * 2 powi e" using r x by simp
      then show ?thesis by (simp add: algebra_simps)
    qed
    ultimately have "\<bar>rnd x - x\<bar> \<le> 1 / 2 * 2 powi e" by (simp add: abs_mult)
    also have "1 / 2 * (2::rat) powi e = 2 powi expo x / 2 ^ 53"
      by (simp add: e_def pow2_diff)
    also have "\<dots> \<le> x / 2 ^ 53"
      using expo_bounds(1)[OF that] by (simp add: divide_right_mono)
    finally show ?thesis .
  qed
  consider "0 < x" | "x = 0" | "x < 0" by linarith
  then show ?thesis
  proof cases
    case 1
    then show ?thesis using pos[OF 1] by simp
  next
    case 2
    then show ?thesis by simp
  next
    case 3
    then have "\<bar>rnd (- x) - (- x)\<bar> \<le> (- x) / 2 ^ 53" by (intro pos) simp
    then show ?thesis using 3 by (simp add: rnd_neg abs_minus_commute)
  qed
qed

lemma rhe_near:
  assumes "\<bar>x - of_int n\<bar> < 1 / 2"
  shows "round_half_even x = n"
proof -
  have "of_int (round_half_even x) - of_int n < (1::rat)"
    using rhe_bounds(2)[of x] assms by linarith
  moreover have "of_int n - of_int (round_half_even x) < (1::rat)"
    using rhe_bounds(1)[of x] assms by linarith
  ultimately have "round_half_even x - n < 1" "n - round_half_even x < 1"
    by (simp_all only: of_int_diff[symmetric] of_int_less_iff[where 'a = rat, symmetric] of_int_1)
  then show ?thesis by simp
qed

lemma calc_form:
  "calculate_energy_consumption (form_appliances l f t a g w) =
     fadd (fadd (fadd (fadd (fadd (fadd 0
       (fmul (float_of_int l) (rnd (2 / 10))))
       (fmul (float_of_int f) (rnd (2 / 10))))
       (fmul (float_of_int t) (rnd (3 / 10))))
       (fmul (float_of_int a) (rnd 3)))
       (fmul (float_of_int g) (rnd (31 / 10))))
       (fmul (float_of_int w) (rnd (28 / 10)))"
  by (simp add: calculate_energy_consumption_def form_appliances_def add_appliance_def
      energy_rates_def)

lemma term_err:
  assumes "0 \<le> c" "c \<le> 50" "0 \<le> R" "R \<le> 4"
  shows "\<bar>fmul (float_of_int c) (rnd R) - of_int c * R\<bar> \<le> 1 / 2 ^ 44"
proof -
  define r where "r = rnd R"
  define k :: rat where "k = of_int c"
  have k: "0 \<le> k" "k \<le> 50" using assms(1,2) by (simp_all add: k_def)
  have fc: "float_of_int c = k" using assms(1,2) by (simp add: float_of_int_exact k_def)
  have "rnd 4 = 4" using rnd_rep[of 4 0] by simp
  then have r4: "r \<le> 4" using rnd_mono[OF assms(4)] by (simp add: r_def)
  have r0: "0 \<le> r" using rnd_nonneg[OF assms(3)] by (simp add: r_def)
  have "\<bar>r - R\<bar> \<le> \<bar>R\<bar> / 2 ^ 53" unfolding r_def by (rule rnd_err)
  then have rR: "\<bar>r - R\<bar> \<le> 4 / 2 ^ 53" using assms(3,4) by simp
  have "k * r \<le> 50 * 4" using k r0 r4 by (intro mult_mono) simp_all
  then have kr: "0 \<le> k * r" "k * r \<le> 200"
    using k r0 by simp_all
  have "\<bar>rnd (k * r) - k * r\<bar> \<le> \<bar>k * r\<bar> / 2 ^ 53" by (rule rnd_err)
  then have e1: "\<bar>rnd (k * r) - k * r\<bar> \<le> 200 / 2 ^ 53" using kr by simp
  have "\<bar>k * r - k * R\<bar> = k * \<bar>r - R\<bar>"
    using k(1) by (simp add: abs_mult right_diff_distrib[symmetric])
  also have "\<dots> \<le> 50 * (4 / 2 ^ 53)"
    using k rR by (intro mult_mono) simp_all
  finally have e2: "\<bar>k * r - k * R\<bar> \<le> 200 / 2 ^ 53" by simp
  have "\<bar>rnd (k * r) - k * R\<bar> \<le> 400 / 2 ^ 53" using e1 e2 by linarith
  then show ?thesis by (simp add: fmul_def fc r_def[symmetric] k_def[symmetric])
qed

lemma fadd_err:
  assumes "\<bar>x - X\<bar> \<le> ex" "\<bar>y - Y\<bar> \<le> ey" "\<bar>X + Y\<bar> \<le> 200" "ex + ey \<le> 1"
  shows "\<bar>fadd x y - (X + Y)\<bar> \<le> ex + ey + 1 / 2 ^ 45"
proof -
  have s: "\<bar>x + y\<bar> \<le> 201" using assms by linarith
  have "\<bar>rnd (x + y) - (x + y)\<bar> \<le> \<bar>x + y\<bar> / 2 ^ 53" by (rule rnd_err)
  then have "\<bar>rnd (x + y) - (x + y)\<bar> \<le> 256 / 2 ^ 53" using s by simp
  then have "\<bar>rnd (x + y) - (x + y)\<bar> \<le> 1 / 2 ^ 45" by simp
  then show ?thesis unfolding fadd_def using assms(1,2) by linarith
qed

lemma calc_form_err:
  assumes "form_ranges l f t a g w"
  shows "\<bar>calculate_energy_consumption (form_appliances l f t a g w)
           - of_int (exact_tenths l f t a g w) / 10\<bar> \<le> 1 / 2 ^ 40"
proof -
  have b: "0 \<le> l" "l \<le> 50" "0 \<le> f" "f \<le> 20" "0 \<le> t" "t \<le> 10" "0 \<le> a" "a \<le> 10"
    "0 \<le> g" "g \<le> 5" "0 \<le> w" "w \<le> 5"
    using assms by (simp_all add: form_ranges_def)
  define L F T A G W :: rat where "L = of_int l" and "F = of_int f" and "T = of_int t"
    and "A = of_int a" and "G = of_int g" and "W = of_int w"
  have B: "0 \<le> L" "L \<le> 50" "0 \<le> F" "F \<le> 20" "0 \<le> T" "T \<le> 10" "0 \<le> A" "A \<le> 10"
    "0 \<le> G" "G \<le> 5" "0 \<le> W" "W \<le> 5"
    using b by (simp_all add: L_def F_def T_def A_def G_def W_def)
  define p1 where "p1 = fmul (float_of_int l) (rnd (2 / 10))"
  define p2 where "p2 = fmul (float_of_int f) (rnd (2 / 10))"
  define p3 where "p3 = fmul (float_of_int t) (rnd (3 / 10))"
  define p4 where "p4 = fmul (float_of_int a) (rnd 3)"
  define p5 where "p5 = fmul (float_of_int g) (rnd (31 / 10))"
  define p6 where "p6 = fmul (float_of_int w) (rnd (28 / 10))"
  have t1: "\<bar>p1 - L * (2 / 10)\<bar> \<le> 1 / 2 ^ 44"
    unfolding p1_def L_def using b by (intro term_err) simp_all
  have t2: "\<bar>p2 - F * (2 / 10)\<bar> \<le> 1 / 2 ^ 44"
    unfolding p2_def F_def using b by (intro term_err) simp_all
  have t3: "\<bar>p3 - T * (3 / 10)\<bar> \<le> 1 / 2 ^ 44"
    unfolding p3_def T_def using b by (intro term_err) simp_all
  have t4: "\<bar>p4 - A * 3\<bar> \<le> 1 / 2 ^ 44"
    unfolding p4_def A_def using b by (intro term_err) simp_all
  have t5: "\<bar>p5 - G * (31 / 10)\<bar> \<le> 1 / 2 ^ 44"
    unfolding p5_def G_def using b by (intro term_err) simp_all
  have t6: "\<bar>p6 - W * (28 / 10)\<bar> \<le> 1 / 2 ^ 44"
    unfolding p6_def W_def using b by (intro term_err) simp_all
  define s1 where "s1 = fadd 0 p1"
  define s2 where "s2 = fadd s1 p2"
  define s3 where "s3 = fadd s2 p3"
  define s4 where "s4 = fadd s3 p4"
  define s5 where "s5 = fadd s4 p5"
  define s6 where "s6 = fadd s5 p6"
  have z: "\<bar>(0::rat) - 0\<bar> \<le> 0" by simp
  have e1: "\<bar>s1 - (0 + L * (2 / 10))\<bar> \<le> 0 + 1 / 2 ^ 44 + 1 / 2 ^ 45"
    unfolding s1_def using z t1 B by (intro fadd_err) simp_all
  have e2: "\<bar>s2 - (0 + L * (2 / 10) + F * (2 / 10))\<bar>
              \<le> 0 + 1 / 2 ^ 44 + 1 / 2 ^ 45 + 1 / 2 ^ 44 + 1 / 2 ^ 45"
    unfolding s2_def using e1 t2 B by (intro fadd_err) simp_all
  have e3: "\<bar>s3 - (0 + L * (2 / 10) + F * (2 / 10) + T * (3 / 10))\<bar>
              \<le> 0 + 1 / 2 ^ 44 + 1 / 2 ^ 45 + 1 / 2 ^ 44 + 1 / 2 ^ 45 + 1 / 2 ^ 44 + 1 / 2 ^ 45"
    unfolding s3_def using e2 t3 B by (intro fadd_err) simp_all
  have e4: "\<bar>s4 - (0 + L * (2 / 10) + F * (2 / 10) + T * (3 / 10) + A * 3)\<bar>
              \<le> 0 + 1 / 2 ^ 44 + 1 / 2 ^ 45 + 1 / 2 ^ 44 + 1 / 2 ^ 45 + 1 / 2 ^ 44 + 1 / 2 ^ 45
                  + 1 / 2 ^ 44 + 1 / 2 ^ 45"
    unfolding s4_def using e3 t4 B by (intro fadd_err) simp_all
  have e5: "\<bar>s5 - (0 + L * (2 / 10) + F * (2 / 10) + T * (3 / 10) + A * 3 + G * (31 / 10))\<bar>
              \<le> 0 + 1 / 2 ^ 44 + 1 / 2 ^ 45 + 1 / 2 ^ 44 + 1 / 2 ^ 45 + 1 / 2 ^ 44 + 1 / 2 ^ 45
                  + 1 / 2 ^ 44 + 1 / 2 ^ 45 + 1 / 2 ^ 44 + 1 / 2 ^ 45"
    unfolding s5_def using e4 t5 B by (intro fadd_err) simp_all
  have e6: "\<bar>s6 - (0 + L * (2 / 10) + F * (2 / 10) + T * (3 / 10) + A * 3 + G * (31 / 10)
                  + W * (28 / 10))\<bar>
              \<le> 0 + 1 / 2 ^ 44 + 1 / 2 ^ 45 + 1 / 2 ^ 44 + 1 / 2 ^ 45 + 1 / 2 ^ 44 + 1 / 2 ^ 45
                  + 1 / 2 ^ 44 + 1 / 2 ^ 45 + 1 / 2 ^ 44 + 1 / 2 ^ 45 + 1 / 2 ^ 44 + 1 / 2 ^ 45"
    unfolding s6_def using e5 t6 B by (intro fadd_err) simp_all
  have ex: "of_int (exact_tenths l f t a g w) / 10
              = 0 + L * (2 / 10) + F * (2 / 10) + T * (3 / 10) + A * 3 + G * (31 / 10) + W * (28 / 10)"
    by (simp add: exact_tenths_def L_def F_def T_def A_def G_def W_def)
  have c: "calculate_energy_consumption (form_appliances l f t a g w) = s6"
    by (simp only: calc_form s6_def s5_def s4_def s3_def s2_def s1_def p1_def p2_def p3_def
        p4_def p5_def p6_def)
  show ?thesis unfolding c ex using e6 by simp
qed

lemma py_round2_near:
  assumes "\<bar>x - of_int n / 100\<bar> < 1 / 200"
  shows "py_round2 x = rnd (of_int n / 100)"
proof -
  have "\<bar>x * 100 - of_int n\<bar> < 1 / 2" using assms by (simp add: abs_less_iff field_simps)
  then have "round_half_even (x * 100) = n" by (rule rhe_near)
  then show ?thesis by (simp add: py_round2_def)
qed

lemma fmul_tariff:
  assumes "rnd x = x"
  shows "fmul x (float_of_int rate_per_unit) = x * 8"
proof -
  have "float_of_int rate_per_unit = 8"
    using float_of_int_exact[of 8] by (simp add: rate_per_unit_def)
  moreover have "rnd (x * 2 powi 3) = rnd x * 2 powi 3" by (rule rnd_scale)
  ultimately show ?thesis using assms by (simp add: fmul_def)
qed

lemma exact_tenths_range:
  assumes "form_ranges l f t a g w"
  shows "0 \<le> exact_tenths l f t a g w" "exact_tenths l f t a g w \<le> 765"
  using assms by (simp_all add: form_ranges_def exact_tenths_def)

subsection \<open>C4: the stored cost and the stored energy\<close>

text \<open>
  C4, as stated: for all non-negative integer counts the stored cost is the stored
  (rounded) energy times 8, rounded to two decimals. The code rounds the cost from the
  unrounded energy; with 28872306874799 lights the two differ: the stored cost is
  46195690999678.41 while the stored energy times 8 rounds to 46195690999678.4.
\<close>

theorem C4_counterexample:
  "py_round2 (fmul (calculate_energy_consumption (form_appliances 28872306874799 0 0 0 0 0))
                   (float_of_int rate_per_unit))
   \<noteq> py_round2 (fmul (py_round2 (calculate_energy_consumption
                                      (form_appliances 28872306874799 0 0 0 0 0)))
                     (float_of_int rate_per_unit))"
  by code_simp

text \<open>
  C4, amended: for the counts that the form can submit (each within the range of its
  widget) the pipeline is a function of its input, the stored \<^verbatim>\<open>total_energy_kwh\<close> is
  the float nearest to the exact sum of count times rate, the stored
  \<^verbatim>\<open>estimated_cost\<close> is the float nearest to 8 times that sum, and the stored cost,
  which the code rounds from the unrounded energy times 8, equals the stored energy
  times the tariff 8 rounded to two decimals.
\<close>

theorem stored_cost_from_stored_energy:
  assumes "form_ranges lights fans tvs ac_count fridge_count wm_count"
  shows "let appliances = form_appliances lights fans tvs ac_count fridge_count wm_count;
             total_energy = calculate_energy_consumption appliances;
             total_cost = fmul total_energy (float_of_int rate_per_unit);
             data = map_of (consumption_data today username appliances total_energy total_cost)
         in data ''total_energy_kwh''
              = Some (VNum (rnd (of_int (exact_tenths lights fans tvs ac_count fridge_count wm_count) / 10))) \<and>
            data ''estimated_cost''
              = Some (VNum (rnd (of_int (8 * exact_tenths lights fans tvs ac_count fridge_count wm_count) / 10))) \<and>
            py_round2 total_cost
              = py_round2 (fmul (py_round2 total_energy) (float_of_int rate_per_unit))"
proof -
  define n where "n = exact_tenths lights fans tvs ac_count fridge_count wm_count"
  define E where "E = calculate_energy_consumption
                        (form_appliances lights fans tvs ac_count fridge_count wm_count)"
  define q :: rat where "q = of_int n / 10"
  have n: "0 \<le> n" "n \<le> 765" using exact_tenths_range[OF assms] by (simp_all add: n_def)
  have q: "0 \<le> q" "q \<le> 765 / 10" using n by (simp_all add: q_def)
  have err: "\<bar>E - q\<bar> \<le> 1 / 2 ^ 40"
    unfolding E_def q_def n_def by (rule calc_form_err[OF assms])
  have "rnd E = E" unfolding E_def calc_form fadd_def by (rule rnd_idem)
  then have cost: "fmul E (float_of_int rate_per_unit) = E * 8" by (rule fmul_tariff)
  have q10: "of_int (10 * n) / 100 = q" "of_int (80 * n) / 100 = q * 8"
    by (simp_all add: q_def)
  have "\<bar>E - of_int (10 * n) / 100\<bar> < 1 / 200" unfolding q10 using err by simp
  then have "py_round2 E = rnd (of_int (10 * n) / 100)" by (rule py_round2_near)
  then have r1: "py_round2 E = rnd q" by (simp only: q10)
  have err': "\<bar>E - q\<bar> \<le> 1 / 1099511627776" using err by simp
  have "\<bar>E * 8 - of_int (80 * n) / 100\<bar> < 1 / 200" unfolding q10 using err' by linarith
  then have "py_round2 (E * 8) = rnd (of_int (80 * n) / 100)" by (rule py_round2_near)
  then have r2: "py_round2 (E * 8) = rnd (q * 8)" by (simp only: q10)
  have "rnd (rnd q) = rnd q" by (rule rnd_idem)
  then have cost': "fmul (rnd q) (float_of_int rate_per_unit) = rnd q * 8" by (rule fmul_tariff)
  have "\<bar>rnd q - q\<bar> \<le> \<bar>q\<bar> / 2 ^ 53" by (rule rnd_err)
  then have "\<bar>rnd q - q\<bar> \<le> 128 / 2 ^ 53" using q by simp
  then have "\<bar>rnd q - q\<bar> \<le> 1 / 1099511627776" by simp
  then have "\<bar>rnd q * 8 - of_int (80 * n) / 100\<bar> < 1 / 200" unfolding q10 by linarith
  then have "py_round2 (rnd q * 8) = rnd (of_int (80 * n) / 100)" by (rule py_round2_near)
  then have r3: "py_round2 (rnd q * 8) = rnd (q * 8)" by (simp only: q10)
  have q8: "of_int (8 * n) / 10 = q * 8" by (simp add: q_def)
  show ?thesis
    unfolding Let_def E_def[symmetric] n_def[symmetric] q8 q_def[symmetric]
    by (simp add: consumption_data_def cost r1 r2 cost' r3)
qed

text \<open>The amended C4 at the example submission.\<close>

theorem stored_cost_from_stored_energy_witness:
  "form_ranges 5 2 1 1 1 0 \<and>
   (let appliances = form_appliances 5 2 1 1 1 0;
        total_energy = calculate_energy_consumption appliances;
        total_cost = fmul total_energy (float_of_int rate_per_unit);
        data = map_of (consumption_data morning ''asha'' appliances total_energy total_cost)
    in data ''total_energy_kwh'' = Some (VNum (rnd (of_int (exact_tenths 5 2 1 1 1 0) / 10))) \<and>
       data ''estimated_cost'' = Some (VNum (rnd (of_int (8 * exact_tenths 5 2 1 1 1 0) / 10))) \<and>
       py_round2 total_cost
         = py_round2 (fmul (py_round2 total_energy) (float_of_int rate_per_unit)))"
proof -
  have h: "form_ranges 5 2 1 1 1 0" by (simp add: form_ranges_def)
  show ?thesis
    using stored_cost_from_stored_energy[OF h, of morning "''asha''"] h by blast
qed

end
